theory Spec2Isabelle
  imports Main
begin

section \<open>Data model\<close>

text \<open>
  A candle is the list \<^verbatim>\<open>[timestamp, open, high, low, close, volume]\<close> that the provider
  returns; the code only ever reads element 0, the integer millisecond timestamp. The five
  floating-point fields are carried along untouched, so they are one opaque payload of an
  arbitrary type \<open>'p\<close>. A row of the CSV file has the same shape.
\<close>

record 'p candle =
  time :: int
  ohlcv :: 'p

text \<open>The exceptions that can leave a function of \<^verbatim>\<open>ohlcv_to_csv.py\<close>.\<close>

datatype error =
    ValueError string      \<comment> \<open>\<^verbatim>\<open>validate_timeframe\<close>, with its message\<close>
  | ConnectionError nat    \<comment> \<open>\<^verbatim>\<open>fetch_candles\<close>, with \<^verbatim>\<open>max_retries\<close>\<close>
  | IndexError             \<comment> \<open>\<^verbatim>\<open>candles[-1]\<close> on an empty list, \<^verbatim>\<open>iloc[-1]\<close> on an empty frame\<close>
  | DatetimeError          \<comment> \<open>\<^verbatim>\<open>datetime.utcfromtimestamp\<close> on a value it cannot represent\<close>

text \<open>One constructor for each \<^verbatim>\<open>print\<close> of the source, with the values it interpolates.\<close>

datatype message =
    Banner                      \<comment> \<open>line 47\<close>
  | Error_line string           \<comment> \<open>line 56, with \<^verbatim>\<open>str(e)\<close>\<close>
  | Csv_exists string           \<comment> \<open>line 66\<close>
  | New_csv string              \<comment> \<open>line 70\<close>
  | Fetching_from int           \<comment> \<open>line 76\<close>
  | No_more_candles             \<comment> \<open>line 81\<close>
  | Binned_unclosed             \<comment> \<open>line 88\<close>
  | Reached_end                 \<comment> \<open>line 92\<close>
  | Added nat int               \<comment> \<open>line 100\<close>
  | Saved nat string            \<comment> \<open>line 109\<close>
  | Total_fetched nat           \<comment> \<open>line 110\<close>
  | Attempt_failed nat nat      \<comment> \<open>line 42\<close>

text \<open>The two places that call \<^verbatim>\<open>time.sleep\<close>: line 33 (0.5 s) and line 43 (whole seconds).\<close>

datatype pause = Rate_limit_delay | Backoff nat

text \<open>
  What the program changes: the number of \<^verbatim>\<open>fetch_ohlcv\<close> calls made so far, the sleeps
  it asked for, what it printed, and the file system (a file name to the rows of that CSV
  file; the text format of the file is not modelled).
\<close>

record 'p world =
  calls :: nat
  slept :: "pause list"
  stdout :: "message list"
  files :: "string \<rightharpoonup> 'p candle list"

text \<open>
  What the program consumes and does not implement. The provider answers for the one
  symbol and timeframe of the run: \<open>fetch_ohlcv n since\<close> is the answer to call number \<open>n\<close>
  (counted from 0) when asked from \<open>since\<close>, \<open>None\<close> when the call raises an exception.
  \<open>milliseconds n\<close> is the reading of \<^verbatim>\<open>exchange.milliseconds()\<close> once \<open>n\<close> calls have been
  made. \<open>utc_ok t\<close> says whether \<^verbatim>\<open>datetime.utcfromtimestamp(t / 1000)\<close> returns rather than
  raises (the range depends on the platform).
\<close>

record 'p exchange =
  fetch_ohlcv :: "nat \<Rightarrow> int \<Rightarrow> 'p candle list option"
  milliseconds :: "nat \<Rightarrow> int"
  utc_ok :: "int \<Rightarrow> bool"

definition print_msg :: "message \<Rightarrow> 'p world \<Rightarrow> 'p world" where
  "print_msg m w = w\<lparr>stdout := stdout w @ [m]\<rparr>"

definition sleep :: "pause \<Rightarrow> 'p world \<Rightarrow> 'p world" where
  "sleep p w = w\<lparr>slept := slept w @ [p]\<rparr>"

definition called :: "'p world \<Rightarrow> 'p world" where
  "called w = w\<lparr>calls := Suc (calls w)\<rparr>"

fun backoff_seconds :: "pause list \<Rightarrow> nat" where
  "backoff_seconds [] = 0"
| "backoff_seconds (Rate_limit_delay # ps) = backoff_seconds ps"
| "backoff_seconds (Backoff n # ps) = n + backoff_seconds ps"

section \<open>Validation and file name\<close>

definition valid :: "string list" where
  "valid = [''1m'', ''3m'', ''5m'', ''15m'', ''30m'', ''1h'', ''2h'', ''4h'', ''8h'', ''12h'',
            ''1d'', ''3d'', ''1w'', ''1M'']"

text \<open>Python's \<^verbatim>\<open>repr\<close> of a string without quotes or escapes, and of a list of such.\<close>

definition quoted :: "string \<Rightarrow> string" where
  "quoted s = CHR 0x27 # s @ [CHR 0x27]"

fun comma_sep :: "string list \<Rightarrow> string" where
  "comma_sep [] = []"
| "comma_sep [x] = x"
| "comma_sep (x # y # ys) = x @ '', '' @ comma_sep (y # ys)"

definition repr_list :: "string list \<Rightarrow> string" where
  "repr_list xs = ''['' @ comma_sep (map quoted xs) @ '']''"

definition invalid_timeframe_text :: "string \<Rightarrow> string" where
  "invalid_timeframe_text timeframe =
     ''Invalid timeframe '' @ quoted timeframe @ ''. Try: '' @ repr_list valid"

definition validate_timeframe :: "string \<Rightarrow> error + unit" where
  "validate_timeframe timeframe =
     (if timeframe \<notin> set valid then Inl (ValueError (invalid_timeframe_text timeframe))
      else Inr ())"

definition replace_char :: "char \<Rightarrow> char \<Rightarrow> string \<Rightarrow> string" where
  "replace_char a b s = map (\<lambda>c. if c = a then b else c) s"

definition sanitize_filename :: "string \<Rightarrow> string \<Rightarrow> string" where
  "sanitize_filename symbol timeframe =
     (let base = replace_char CHR '':'' CHR ''-'' (replace_char CHR ''/'' CHR ''-'' symbol)
      in base @ ''_'' @ timeframe @ ''.csv'')"

section \<open>Retry-wrapped fetch\<close>

text \<open>
  The body of \<^verbatim>\<open>for attempt in range(1, max_retries + 1)\<close>, over the attempt numbers still
  to come. Falling out of the loop raises \<^verbatim>\<open>ConnectionError\<close>. The symbol and timeframe
  arguments are those of the run, for which the provider answers.
\<close>

fun attempts :: "'p exchange \<Rightarrow> int \<Rightarrow> nat \<Rightarrow> nat list \<Rightarrow> 'p world
                 \<Rightarrow> (error + 'p candle list) \<times> 'p world" where
  "attempts ex since max_retries [] w = (Inl (ConnectionError max_retries), w)"
| "attempts ex since max_retries (attempt # rest) w =
     (let w1 = sleep Rate_limit_delay w in
      case fetch_ohlcv ex (calls w1) since of
        Some candles \<Rightarrow> (Inr candles, called w1)
      | None \<Rightarrow>
          attempts ex since max_retries rest
            (sleep (Backoff (2 ^ attempt))
               (print_msg (Attempt_failed attempt max_retries) (called w1))))"

definition fetch_candles :: "'p exchange \<Rightarrow> int \<Rightarrow> nat \<Rightarrow> 'p world
                             \<Rightarrow> (error + 'p candle list) \<times> 'p world" where
  "fetch_candles ex since max_retries w =
     attempts ex since max_retries [1 ..< max_retries + 1] w"

section \<open>Pagination loop\<close>

text \<open>The variables of \<^verbatim>\<open>main\<close> that the \<^verbatim>\<open>while True\<close> loop reads and writes.\<close>

record 'p loop_state =
  last_timestamp :: "int option"
  previous_last :: "int option"
  all_candles :: "'p candle list"
  world :: "'p world"

text \<open>Python's truth value of an \<^verbatim>\<open>int\<close> or \<^verbatim>\<open>None\<close>: both \<^verbatim>\<open>None\<close> and \<^verbatim>\<open>0\<close> are false.\<close>

definition truthy :: "int option \<Rightarrow> bool" where
  "truthy v = (case v of None \<Rightarrow> False | Some t \<Rightarrow> t \<noteq> 0)"

text \<open>\<^verbatim>\<open>exchange.parse8601('2010-01-01T00:00:00Z')\<close>: 14610 days of 86400000 ms.\<close>

definition epoch_floor :: int where
  "epoch_floor = 1262304000000"

text \<open>Line 75: \<^verbatim>\<open>since = last_timestamp if last_timestamp else exchange.parse8601(...)\<close>.\<close>

definition since_of :: "int option \<Rightarrow> int" where
  "since_of lt = (case lt of None \<Rightarrow> epoch_floor
                  | Some t \<Rightarrow> if truthy lt then t else epoch_floor)"

text \<open>
  Lines 85 to 88, reached only with a non-empty page: read the clock, pop the last candle
  when its timestamp is not before the reading.
\<close>

definition trim_unclosed :: "'p exchange \<Rightarrow> 'p candle list \<Rightarrow> 'p world
                             \<Rightarrow> 'p candle list \<times> 'p world" where
  "trim_unclosed ex candles w =
     (let current_time = milliseconds ex (calls w) in
      if time (last candles) \<ge> current_time
      then (butlast candles, print_msg Binned_unclosed w)
      else (candles, w))"

text \<open>
  Line 91: \<^verbatim>\<open>previous_last and candles[-1][0] <= previous_last\<close>. The right operand is
  evaluated only when the left one is true, and raises on an empty list.
\<close>

definition stalled :: "int option \<Rightarrow> 'p candle list \<Rightarrow> error + bool" where
  "stalled pl candles =
     (case pl of
        None \<Rightarrow> Inr False
      | Some p \<Rightarrow>
          if \<not> truthy pl then Inr False
          else if candles = [] then Inl IndexError
          else Inr (time (last candles) \<le> p))"

datatype 'p step =
    Next "'p loop_state"
  | Stop "error + 'p candle list" "'p world"

text \<open>
  One pass through the body of the loop (lines 75 to 100). \<open>Stop (Inr cs)\<close> is a
  \<^verbatim>\<open>break\<close> with \<^verbatim>\<open>all_candles = cs\<close>, \<open>Stop (Inl e)\<close> an exception that leaves \<^verbatim>\<open>main\<close>.
\<close>

definition iteration :: "'p exchange \<Rightarrow> 'p loop_state \<Rightarrow> 'p step" where
  "iteration ex s =
     (let since = since_of (last_timestamp s) in
      if \<not> utc_ok ex since then Stop (Inl DatetimeError) (world s)
      else
        case fetch_candles ex since 5 (print_msg (Fetching_from since) (world s)) of
          (Inl e, w) \<Rightarrow> Stop (Inl e) w
        | (Inr candles, w) \<Rightarrow>
            if candles = [] then Stop (Inr (all_candles s)) (print_msg No_more_candles w)
            else
              case trim_unclosed ex candles w of
                (candles', w') \<Rightarrow>
                  (case stalled (previous_last s) candles' of
                     Inl e \<Rightarrow> Stop (Inl e) w'
                   | Inr True \<Rightarrow> Stop (Inr (all_candles s)) (print_msg Reached_end w')
                   | Inr False \<Rightarrow>
                       if candles' = [] then Stop (Inl IndexError) w'
                       else
                         let t = time (last candles') in
                         if \<not> utc_ok ex t then Stop (Inl DatetimeError) w'
                         else
                           Next \<lparr>last_timestamp = Some (t + 1),
                                 previous_last = Some t,
                                 all_candles = all_candles s @ candles',
                                 world = print_msg (Added (length candles') t) w'\<rparr>))"

partial_function (option) pagination ::
  "'p exchange \<Rightarrow> 'p loop_state \<Rightarrow> ((error + 'p candle list) \<times> 'p world) option" where
  "pagination ex s =
     (case iteration ex s of
        Next s' \<Rightarrow> pagination ex s'
      | Stop r w \<Rightarrow> Some (r, w))"

declare pagination.simps [code]

text \<open>The states the loop passes through, each at the head of the loop body.\<close>

inductive reaches :: "'p exchange \<Rightarrow> 'p loop_state \<Rightarrow> 'p loop_state \<Rightarrow> bool"
  for ex :: "'p exchange" and s :: "'p loop_state" where
  here: "reaches ex s s"
| later: "reaches ex s s' \<Longrightarrow> iteration ex s' = Next s'' \<Longrightarrow> reaches ex s s''"

section \<open>Merge and persist\<close>

text \<open>
  \<^verbatim>\<open>drop_duplicates("time")\<close> keeps the first row of each timestamp (pandas' default
  \<^verbatim>\<open>keep='first'\<close>); \<open>seen\<close> holds the timestamps met so far.
\<close>

fun drop_duplicates :: "int list \<Rightarrow> 'p candle list \<Rightarrow> 'p candle list" where
  "drop_duplicates seen [] = []"
| "drop_duplicates seen (r # rs) =
     (if time r \<in> set seen then drop_duplicates seen rs
      else r # drop_duplicates (time r # seen) rs)"

text \<open>
  Lines 103 to 106. \<^verbatim>\<open>sort_values("time")\<close> is \<open>sort_key time\<close>: the timestamps are pairwise
  different after \<^verbatim>\<open>drop_duplicates\<close>, so every sorting algorithm returns the same list.
\<close>

definition merge_frames :: "'p candle list \<Rightarrow> 'p candle list \<Rightarrow> 'p candle list" where
  "merge_frames df_old all_new =
     (let df_new = all_new;
          df_final = (if df_old \<noteq> [] then df_old @ df_new else df_new)
      in sort_key time (drop_duplicates [] df_final))"

section \<open>The program\<close>

datatype outcome = Returned | Raised error

text \<open>The exit status of the interpreter: 0 when \<^verbatim>\<open>main\<close> returns, 1 on an uncaught exception.\<close>

fun exit_status :: "outcome \<Rightarrow> nat" where
  "exit_status Returned = 0"
| "exit_status (Raised e) = 1"

text \<open>
  Lines 62 to 70: the rows already on disk and the timestamp to resume from.
  \<^verbatim>\<open>iloc[-1]\<close> raises on a file that has a header and no row.
\<close>

definition load_previous :: "string \<Rightarrow> 'p world
    \<Rightarrow> error + ('p candle list \<times> int option \<times> 'p world)" where
  "load_previous filename w =
     (case files w filename of
        Some df_old \<Rightarrow>
          if df_old = [] then Inl IndexError
          else Inr (df_old, Some (time (last df_old)), print_msg (Csv_exists filename) w)
      | None \<Rightarrow> Inr ([], None, print_msg (New_csv filename) w))"

definition first_state :: "int option \<Rightarrow> 'p world \<Rightarrow> 'p loop_state" where
  "first_state lt w =
     \<lparr>last_timestamp = lt, previous_last = None, all_candles = [], world = w\<rparr>"

text \<open>
  Lines 103 to 110. The file is kept as its rows: the decimal text that \<^verbatim>\<open>to_csv\<close> writes
  for the float fields (\<^verbatim>\<open>float_format\<close>, eight decimals) is not modelled.
\<close>

definition persist :: "string \<Rightarrow> 'p candle list \<Rightarrow> 'p candle list \<Rightarrow> 'p world \<Rightarrow> 'p world" where
  "persist filename df_old all_new w =
     (let df_final = merge_frames df_old all_new;
          w1 = w\<lparr>files := (files w)(filename \<mapsto> df_final)\<rparr>;
          w2 = print_msg (Saved (length df_final) filename) w1
      in print_msg (Total_fetched (length all_new)) w2)"

text \<open>
  \<^verbatim>\<open>main\<close>, with the parsed arguments. \<open>None\<close> is a run whose loop never ends.
\<close>

definition main :: "string \<Rightarrow> string \<Rightarrow> 'p exchange \<Rightarrow> 'p world
                    \<Rightarrow> (outcome \<times> 'p world) option" where
  "main symbol timeframe ex w =
     (let w0 = print_msg Banner w in
      case validate_timeframe timeframe of
        Inl (ValueError e) \<Rightarrow> Some (Returned, print_msg (Error_line e) w0)
      | Inl e \<Rightarrow> Some (Raised e, w0)
      | Inr _ \<Rightarrow>
          (let filename = sanitize_filename symbol timeframe in
           (case load_previous filename w0 of
              Inl e \<Rightarrow> Some (Raised e, w0)
            | Inr (df_old, lt, w1) \<Rightarrow>
                (case pagination ex (first_state lt w1) of
                   None \<Rightarrow> None
                 | Some (Inl e, w2) \<Rightarrow> Some (Raised e, w2)
                 | Some (Inr new, w2) \<Rightarrow>
                     Some (Returned, persist filename df_old new w2)))))"

section \<open>Example runs\<close>

text \<open>
  Inputs on which the theorems below are exercised. The payload of a candle is an integer
  here. \<open>demo_exchange\<close> serves \<open>demo_history\<close> from \<open>since\<close> on, after one failing call; its
  clock stands at the timestamp of the last candle during the first page, and past it later.
\<close>

definition bar :: "int \<Rightarrow> int \<Rightarrow> int candle" where
  "bar t v = \<lparr>time = t, ohlcv = v\<rparr>"

definition no_files :: "int world" where
  "no_files = \<lparr>calls = 0, slept = [], stdout = [], files = Map.empty\<rparr>"

definition demo_history :: "int candle list" where
  "demo_history = [bar 1700000000000 101, bar 1700000060000 102, bar 1700000120000 103]"

definition demo_exchange :: "int exchange" where
  "demo_exchange =
     \<lparr>fetch_ohlcv = (\<lambda>n since. if n = 0 then None
                                else Some (filter (\<lambda>c. since \<le> time c) demo_history)),
      milliseconds = (\<lambda>n. if n \<le> 2 then 1700000120000 else 1700000180000),
      utc_ok = (\<lambda>t. True)\<rparr>"

text \<open>The world that the run on \<open>demo_exchange\<close> leaves behind, starting without a file.\<close>

definition demo_after :: "int world" where
  "demo_after =
     \<lparr>calls = 4,
      slept = [Rate_limit_delay, Backoff 2, Rate_limit_delay, Rate_limit_delay,
               Rate_limit_delay],
      stdout = [Banner, New_csv ''BTC-USDT-USDT_1m.csv'', Fetching_from 1262304000000,
                Attempt_failed 1 5, Binned_unclosed, Added 2 1700000060000,
                Fetching_from 1700000060001, Added 1 1700000120000,
                Fetching_from 1700000120001, No_more_candles,
                Saved 3 ''BTC-USDT-USDT_1m.csv'', Total_fetched 3],
      files = [''BTC-USDT-USDT_1m.csv'' \<mapsto> demo_history]\<rparr>"

text \<open>The merge scenario of the specification: stored rows 100, 200, 300, fetched 300, 400, 500.\<close>

definition stored_rows :: "int candle list" where
  "stored_rows = [bar 100 1, bar 200 2, bar 300 3]"

definition fetched_rows :: "int candle list" where
  "fetched_rows = [bar 300 33, bar 400 4, bar 500 5]"

text \<open>A provider whose first three calls fail.\<close>

definition thrice_failing_exchange :: "int exchange" where
  "thrice_failing_exchange =
     \<lparr>fetch_ohlcv = (\<lambda>n since. if n < 3 then None else Some demo_history),
      milliseconds = (\<lambda>n. 1700000180000),
      utc_ok = (\<lambda>t. True)\<rparr>"

text \<open>
  A provider that answers its first call with \<open>fetched_rows\<close> and fails from then on, a
  world in which the output file already holds \<open>stored_rows\<close>, and the state of the loop
  at the head of its second pass in that run.
\<close>

definition failing_exchange :: "int exchange" where
  "failing_exchange =
     \<lparr>fetch_ohlcv = (\<lambda>n since. if n = 0 then Some fetched_rows else None),
      milliseconds = (\<lambda>n. 1700000180000),
      utc_ok = (\<lambda>t. True)\<rparr>"

definition stored_world :: "int world" where
  "stored_world = \<lparr>calls = 0, slept = [], stdout = [],
                    files = [''BTC-USDT-USDT_1m.csv'' \<mapsto> stored_rows]\<rparr>"

definition second_page_state :: "int loop_state" where
  "second_page_state =
     \<lparr>last_timestamp = Some 501, previous_last = Some 500, all_candles = fetched_rows,
      world = \<lparr>calls = 1, slept = [Rate_limit_delay],
               stdout = [Banner, Csv_exists ''BTC-USDT-USDT_1m.csv'', Fetching_from 300,
                         Added 3 500],
               files = [''BTC-USDT-USDT_1m.csv'' \<mapsto> stored_rows]\<rparr>\<rparr>"

text \<open>
  A provider seen through a clock that lags behind it: the first page holds two candles
  whose timestamps are not before the clock reading.
\<close>

definition skewed_exchange :: "int exchange" where
  "skewed_exchange =
     \<lparr>fetch_ohlcv = (\<lambda>n since. if n = 0 then Some demo_history else Some []),
      milliseconds = (\<lambda>n. 1700000030000),
      utc_ok = (\<lambda>t. True)\<rparr>"

text \<open>
  A provider that serves \<open>demo_history\<close> from \<open>since\<close> on, with the clock standing at the
  timestamp of the candle in progress.
\<close>

definition still_clock_exchange :: "int exchange" where
  "still_clock_exchange =
     \<lparr>fetch_ohlcv = (\<lambda>n since. Some (filter (\<lambda>c. since \<le> time c) demo_history)),
      milliseconds = (\<lambda>n. 1700000120000),
      utc_ok = (\<lambda>t. True)\<rparr>"

text \<open>A provider that answers every call with the same candle, of timestamp 0.\<close>

definition stuck_exchange :: "int exchange" where
  "stuck_exchange =
     \<lparr>fetch_ohlcv = (\<lambda>n since. Some [bar 0 7]),
      milliseconds = (\<lambda>n. 1700000180000),
      utc_ok = (\<lambda>t. True)\<rparr>"

text \<open>A provider with nothing to return, and a file whose last row has timestamp 0.\<close>

definition quiet_exchange :: "int exchange" where
  "quiet_exchange =
     \<lparr>fetch_ohlcv = (\<lambda>n since. Some []),
      milliseconds = (\<lambda>n. 1700000180000),
      utc_ok = (\<lambda>t. True)\<rparr>"

definition epoch_world :: "int world" where
  "epoch_world = \<lparr>calls = 0, slept = [], stdout = [],
                   files = [''BTC-USDT-USDT_1m.csv'' \<mapsto> [bar 0 7]]\<rparr>"


text \<open>The worlds and loop states that the runs on these providers go through.\<close>

definition skewed_after :: "int world" where
  "skewed_after =
     \<lparr>calls = 2,
      slept = [Rate_limit_delay, Rate_limit_delay],
      stdout = [Banner, New_csv ''BTC-USDT-USDT_1m.csv'', Fetching_from 1262304000000,
                Binned_unclosed, Added 2 1700000060000, Fetching_from 1700000060001,
                No_more_candles, Saved 2 ''BTC-USDT-USDT_1m.csv'', Total_fetched 2],
      files = [''BTC-USDT-USDT_1m.csv'' \<mapsto> [bar 1700000000000 101, bar 1700000060000 102]]\<rparr>"

definition still_clock_after :: "int world" where
  "still_clock_after =
     \<lparr>calls = 2,
      slept = [Rate_limit_delay, Rate_limit_delay],
      stdout = [Banner, New_csv ''BTC-USDT-USDT_1m.csv'', Fetching_from 1262304000000,
                Binned_unclosed, Added 2 1700000060000, Fetching_from 1700000060001,
                Binned_unclosed],
      files = Map.empty\<rparr>"

definition stuck_second_state :: "int loop_state" where
  "stuck_second_state =
     \<lparr>last_timestamp = Some 1, previous_last = Some 0, all_candles = [bar 0 7],
      world = \<lparr>calls = 1, slept = [Rate_limit_delay],
               stdout = [Banner, New_csv ''BTC-USDT-USDT_1m.csv'', Fetching_from 1262304000000,
                         Added 1 0],
               files = Map.empty\<rparr>\<rparr>"

definition stuck_third_state :: "int loop_state" where
  "stuck_third_state =
     \<lparr>last_timestamp = Some 1, previous_last = Some 0, all_candles = [bar 0 7, bar 0 7],
      world = \<lparr>calls = 2, slept = [Rate_limit_delay, Rate_limit_delay],
               stdout = [Banner, New_csv ''BTC-USDT-USDT_1m.csv'', Fetching_from 1262304000000,
                         Added 1 0, Fetching_from 1, Added 1 0],
               files = Map.empty\<rparr>\<rparr>"

definition epoch_after :: "int world" where
  "epoch_after =
     \<lparr>calls = 1,
      slept = [Rate_limit_delay],
      stdout = [Banner, Csv_exists ''BTC-USDT-USDT_1m.csv'', Fetching_from 1262304000000,
                No_more_candles, Saved 1 ''BTC-USDT-USDT_1m.csv'', Total_fetched 0],
      files = [''BTC-USDT-USDT_1m.csv'' \<mapsto> [bar 0 7]]\<rparr>"

definition demo_after_second :: "int world" where
  "demo_after_second =
     \<lparr>calls = 6,
      slept = [Rate_limit_delay, Backoff 2, Rate_limit_delay, Rate_limit_delay,
               Rate_limit_delay, Rate_limit_delay, Rate_limit_delay],
      stdout = [Banner, New_csv ''BTC-USDT-USDT_1m.csv'', Fetching_from 1262304000000,
                Attempt_failed 1 5, Binned_unclosed, Added 2 1700000060000,
                Fetching_from 1700000060001, Added 1 1700000120000,
                Fetching_from 1700000120001, No_more_candles,
                Saved 3 ''BTC-USDT-USDT_1m.csv'', Total_fetched 3, Banner,
                Csv_exists ''BTC-USDT-USDT_1m.csv'', Fetching_from 1700000120000,
                Added 1 1700000120000, Fetching_from 1700000120001, No_more_candles,
                Saved 3 ''BTC-USDT-USDT_1m.csv'', Total_fetched 1],
      files = [''BTC-USDT-USDT_1m.csv'' \<mapsto> demo_history]\<rparr>"

text \<open>
  A provider on which two candles appear between two runs, neither of them before the
  (lagging) clock reading, and the worlds after the first and the second run on it.
\<close>

definition late_candles_exchange :: "int exchange" where
  "late_candles_exchange =
     \<lparr>fetch_ohlcv = (\<lambda>n since. if n = 0 then Some [bar 1700000000000 101]
                                else if n = 2 then Some demo_history else Some []),
      milliseconds = (\<lambda>n. 1700000030000),
      utc_ok = (\<lambda>t. True)\<rparr>"

definition late_candles_first :: "int world" where
  "late_candles_first =
     \<lparr>calls = 2,
      slept = [Rate_limit_delay, Rate_limit_delay],
      stdout = [Banner, New_csv ''BTC-USDT-USDT_1m.csv'', Fetching_from 1262304000000,
                Added 1 1700000000000, Fetching_from 1700000000001, No_more_candles,
                Saved 1 ''BTC-USDT-USDT_1m.csv'', Total_fetched 1],
      files = [''BTC-USDT-USDT_1m.csv'' \<mapsto> [bar 1700000000000 101]]\<rparr>"

definition late_candles_second :: "int world" where
  "late_candles_second =
     \<lparr>calls = 4,
      slept = [Rate_limit_delay, Rate_limit_delay, Rate_limit_delay, Rate_limit_delay],
      stdout = [Banner, New_csv ''BTC-USDT-USDT_1m.csv'', Fetching_from 1262304000000,
                Added 1 1700000000000, Fetching_from 1700000000001, No_more_candles,
                Saved 1 ''BTC-USDT-USDT_1m.csv'', Total_fetched 1, Banner,
                Csv_exists ''BTC-USDT-USDT_1m.csv'', Fetching_from 1700000000000,
                Binned_unclosed, Added 2 1700000060000, Fetching_from 1700000060001,
                No_more_candles, Saved 2 ''BTC-USDT-USDT_1m.csv'', Total_fetched 2],
      files = [''BTC-USDT-USDT_1m.csv''
                 \<mapsto> [bar 1700000000000 101, bar 1700000060000 102]]\<rparr>"

section \<open>Evaluating runs\<close>

lemmas run_defs =
  main_def validate_timeframe_def valid_def sanitize_filename_def replace_char_def
  load_previous_def first_state_def pagination.simps iteration_def since_of_def truthy_def
  epoch_floor_def fetch_candles_def print_msg_def sleep_def called_def trim_unclosed_def
  stalled_def persist_def merge_frames_def Let_def upt_rec

lemmas demo_defs = bar_def no_files_def demo_history_def

lemma demo_run:
  "main ''BTC/USDT:USDT'' ''1m'' demo_exchange no_files = Some (Returned, demo_after)"
  by (simp add: run_defs demo_defs demo_exchange_def demo_after_def)

lemma demo_second_run:
  "main ''BTC/USDT:USDT'' ''1m'' demo_exchange demo_after = Some (Returned, demo_after_second)"
  by (simp add: run_defs demo_defs demo_exchange_def demo_after_def
        demo_after_second_def)

section \<open>Merging: no duplicates, sorted, first occurrence kept\<close>

lemma drop_duplicates_subset: "set (drop_duplicates seen rs) \<subseteq> set rs"
  by (induction rs arbitrary: seen) auto

lemma drop_duplicates_times:
  "time ` set (drop_duplicates seen rs) = time ` set rs - set seen"
  by (induction rs arbitrary: seen) auto

lemma drop_duplicates_distinct: "distinct (map time (drop_duplicates seen rs))"
  by (induction rs arbitrary: seen) (auto simp: drop_duplicates_times)

lemma drop_duplicates_first:
  "find (\<lambda>x. time x = t) rs = Some r \<Longrightarrow> t \<notin> set seen
   \<Longrightarrow> filter (\<lambda>x. time x = t) (drop_duplicates seen rs) = [r]"
proof (induction rs arbitrary: seen)
  case Nil
  then show ?case by simp
next
  case (Cons x rs)
  show ?case
  proof (cases "time x = t")
    case True
    have "t \<notin> time ` set (drop_duplicates (t # seen) rs)"
      by (simp add: drop_duplicates_times)
    then have "filter (\<lambda>x. time x = t) (drop_duplicates (t # seen) rs) = []"
      by (auto simp: filter_empty_conv)
    with True Cons.prems show ?thesis by simp
  next
    case False
    with Cons.prems have "find (\<lambda>x. time x = t) rs = Some r" by simp
    with False Cons.IH Cons.prems(2) show ?thesis by simp
  qed
qed

lemma drop_duplicates_all_seen:
  "time ` set ys \<subseteq> set seen \<Longrightarrow> drop_duplicates seen ys = []"
  by (induction ys) auto

lemma drop_duplicates_append_seen:
  "time ` set ys \<subseteq> set seen \<union> time ` set xs
   \<Longrightarrow> drop_duplicates seen (xs @ ys) = drop_duplicates seen xs"
proof (induction xs arbitrary: seen)
  case Nil
  then show ?case by (simp add: drop_duplicates_all_seen)
next
  case (Cons x xs)
  show ?case
  proof (cases "time x \<in> set seen")
    case True
    with Cons.prems have "time ` set ys \<subseteq> set seen \<union> time ` set xs" by auto
    with True Cons.IH show ?thesis by simp
  next
    case False
    from Cons.prems have "time ` set ys \<subseteq> set (time x # seen) \<union> time ` set xs" by auto
    with False Cons.IH show ?thesis by simp
  qed
qed

lemma drop_duplicates_id:
  "distinct (map time rs) \<Longrightarrow> time ` set rs \<inter> set seen = {}
   \<Longrightarrow> drop_duplicates seen rs = rs"
  by (induction rs arbitrary: seen) auto

lemma find_append_Some: "find P xs = Some r \<Longrightarrow> find P (xs @ ys) = Some r"
  by (induction xs) auto

lemma merge_frames_subset: "set (merge_frames df_old new) \<subseteq> set df_old \<union> set new"
  using drop_duplicates_subset [of "[]" "df_old @ new"] drop_duplicates_subset [of "[]" new]
  by (auto simp: merge_frames_def)

lemma merge_frames_strict: "sorted_wrt (<) (map time (merge_frames df_old new))"
proof -
  have "distinct (map time (sort_key time (drop_duplicates [] rs)))" for rs :: "'a candle list"
    using drop_duplicates_distinct [of "[]" rs] by (simp add: distinct_map)
  moreover have "sorted (map time (sort_key time (drop_duplicates [] rs)))" for rs :: "'a candle list"
    by simp
  ultimately show ?thesis
    unfolding merge_frames_def Let_def strict_sorted_iff by simp
qed

lemma single_row_of_time:
  "distinct (map f xs) \<Longrightarrow> x \<in> set xs \<Longrightarrow> filter (\<lambda>r. f r = f x) xs = [x]"
proof (induction xs)
  case Nil
  then show ?case by simp
next
  case (Cons a xs)
  then show ?case by (auto simp: filter_empty_conv image_iff)
qed

lemma merge_frames_old_only:
  assumes "sorted_wrt (<) (map time df_old)" and "time ` set new \<subseteq> time ` set df_old"
  shows "merge_frames df_old new = df_old"
proof (cases "df_old = []")
  case True
  with assms have "new = []" by simp
  with True show ?thesis by (simp add: merge_frames_def)
next
  case False
  from assms(1) have d: "distinct (map time df_old)" and s: "sorted (map time df_old)"
    by (simp_all add: strict_sorted_iff)
  from assms(2) have "drop_duplicates [] (df_old @ new) = drop_duplicates [] df_old"
    by (intro drop_duplicates_append_seen) simp
  also from d have "\<dots> = df_old" by (simp add: drop_duplicates_id)
  finally show ?thesis using False s by (simp add: merge_frames_def sort_key_id_if_sorted)
qed

lemma main_Returned_file:
  assumes "main symbol timeframe ex w = Some (Returned, w')" and "timeframe \<in> set valid"
  shows "\<exists>df_old new. files w' (sanitize_filename symbol timeframe)
                          = Some (merge_frames df_old new)"
  using assms
  by (fastforce simp: main_def validate_timeframe_def persist_def print_msg_def Let_def
           split: sum.splits option.splits prod.splits)

text \<open>
  C1. Whenever a run returns after writing the output file, the timestamps of the rows
  in the file increase strictly from each row to the next, and every timestamp in the
  file belongs to exactly one row.
\<close>

theorem persisted_series_strictly_ascending:
  assumes "main symbol timeframe ex w = Some (Returned, w')"
      and "timeframe \<in> set valid"
  shows "\<exists>rows. files w' (sanitize_filename symbol timeframe) = Some rows
           \<and> (\<forall>i. Suc i < length rows \<longrightarrow> time (rows ! i) < time (rows ! Suc i))
           \<and> (\<forall>t \<in> time ` set rows. length (filter (\<lambda>r. time r = t) rows) = 1)"
proof -
  from main_Returned_file [OF assms] obtain df_old new
    where f: "files w' (sanitize_filename symbol timeframe) = Some (merge_frames df_old new)"
    by blast
  let ?rows = "merge_frames df_old new"
  have s: "sorted_wrt (<) (map time ?rows)" by (rule merge_frames_strict)
  have adj: "time (?rows ! i) < time (?rows ! Suc i)" if "Suc i < length ?rows" for i
    using sorted_wrt_nth_less [OF s, of i "Suc i"] that by simp
  from s have d: "distinct (map time ?rows)" by (simp add: strict_sorted_iff)
  have one: "length (filter (\<lambda>r. time r = t) ?rows) = 1" if "t \<in> time ` set ?rows" for t
  proof -
    from that obtain x where "x \<in> set ?rows" and "t = time x" by blast
    with single_row_of_time [OF d] show ?thesis by simp
  qed
  from f adj one show ?thesis by blast
qed

theorem persisted_series_strictly_ascending_witness:
  "main ''BTC/USDT:USDT'' ''1m'' demo_exchange no_files = Some (Returned, demo_after)
   \<and> ''1m'' \<in> set valid
   \<and> (\<exists>rows. files demo_after (sanitize_filename ''BTC/USDT:USDT'' ''1m'') = Some rows
         \<and> (\<forall>i. Suc i < length rows \<longrightarrow> time (rows ! i) < time (rows ! Suc i))
         \<and> (\<forall>t \<in> time ` set rows. length (filter (\<lambda>r. time r = t) rows) = 1))"
proof -
  have v: "''1m'' \<in> set valid" by (simp add: valid_def)
  from persisted_series_strictly_ascending [OF demo_run v] demo_run v show ?thesis by blast
qed

text \<open>
  C10. When a timestamp occurs both in the stored rows and in the newly fetched candles,
  the file that is written holds exactly one row of that timestamp, and it is the stored
  one (the first stored row of that timestamp): the fetched copy is dropped.
\<close>

theorem old_row_wins_overlap:
  assumes "t \<in> time ` set df_old" and "t \<in> time ` set new"
  shows "\<exists>r rows. find (\<lambda>x. time x = t) df_old = Some r
           \<and> files (persist filename df_old new w) filename = Some rows
           \<and> filter (\<lambda>x. time x = t) rows = [r]"
proof -
  from assms(1) obtain r where r: "find (\<lambda>x. time x = t) df_old = Some r"
    by (cases "find (\<lambda>x. time x = t) df_old") (auto simp: find_None_iff)
  from assms(1) have ne: "df_old \<noteq> []" by auto
  from r have "find (\<lambda>x. time x = t) (df_old @ new) = Some r"
    by (rule find_append_Some)
  then have "filter (\<lambda>x. time x = t) (drop_duplicates [] (df_old @ new)) = [r]"
    by (rule drop_duplicates_first) simp
  then have "filter (\<lambda>x. time x = t) (merge_frames df_old new) = [r]"
    using ne by (simp add: merge_frames_def filter_sort)
  moreover have "files (persist filename df_old new w) filename
                   = Some (merge_frames df_old new)"
    by (simp add: persist_def print_msg_def Let_def)
  ultimately show ?thesis using r by blast
qed

theorem old_row_wins_overlap_witness:
  "300 \<in> time ` set stored_rows \<and> 300 \<in> time ` set fetched_rows
   \<and> find (\<lambda>x. time x = 300) stored_rows = Some (bar 300 3)
   \<and> (\<exists>r rows. find (\<lambda>x. time x = 300) stored_rows = Some r
          \<and> files (persist ''f.csv'' stored_rows fetched_rows no_files) ''f.csv'' = Some rows
          \<and> filter (\<lambda>x. time x = 300) rows = [r])"
proof -
  have a: "300 \<in> time ` set stored_rows" by (simp add: stored_rows_def bar_def)
  have b: "300 \<in> time ` set fetched_rows" by (simp add: fetched_rows_def bar_def)
  have c: "find (\<lambda>x. time x = 300) stored_rows = Some (bar 300 3)"
    by (simp add: stored_rows_def bar_def)
  from old_row_wins_overlap [OF a b, of "''f.csv''" no_files] a b c show ?thesis by blast
qed

section \<open>Retry-wrapped fetch: results and backoff\<close>

lemma backoff_seconds_append:
  "backoff_seconds (ps @ qs) = backoff_seconds ps + backoff_seconds qs"
  by (induction ps rule: backoff_seconds.induct) auto

lemma attempts_files: "files (snd (attempts ex since m as w)) = files w"
  by (induction as arbitrary: w)
     (auto simp: Let_def sleep_def called_def print_msg_def split: option.splits)

lemma attempts_page:
  "attempts ex since m as w = (Inr page, w')
   \<Longrightarrow> \<exists>n \<ge> calls w. calls w' = Suc n \<and> fetch_ohlcv ex n since = Some page"
proof (induction as arbitrary: w)
  case Nil
  then show ?case by simp
next
  case (Cons a as)
  show ?case
  proof (cases "fetch_ohlcv ex (calls w) since")
    case None
    with Cons.prems have
      "attempts ex since m as
         (sleep (Backoff (2 ^ a)) (print_msg (Attempt_failed a m) (called (sleep Rate_limit_delay w))))
       = (Inr page, w')"
      by (simp add: Let_def sleep_def)
    from Cons.IH [OF this] show ?thesis
      by (auto simp: sleep_def called_def print_msg_def)
  next
    case (Some p)
    with Cons.prems show ?thesis
      by (auto simp: Let_def sleep_def called_def)
  qed
qed

lemma attempts_exhausted:
  "\<forall>i < length as. fetch_ohlcv ex (calls w + i) since = None
   \<Longrightarrow> \<exists>w'. attempts ex since m as w = (Inl (ConnectionError m), w')"
proof (induction as arbitrary: w)
  case Nil
  then show ?case by simp
next
  case (Cons a as)
  let ?w = "sleep (Backoff (2 ^ a)) (print_msg (Attempt_failed a m) (called (sleep Rate_limit_delay w)))"
  from Cons.prems have first: "fetch_ohlcv ex (calls w) since = None" by force
  have c: "calls ?w = Suc (calls w)" by (simp add: sleep_def called_def print_msg_def)
  have "\<forall>i < length as. fetch_ohlcv ex (calls ?w + i) since = None"
  proof (intro allI impI)
    fix i assume "i < length as"
    then have "Suc i < length (a # as)" by simp
    with Cons.prems have "fetch_ohlcv ex (calls w + Suc i) since = None" by blast
    with c show "fetch_ohlcv ex (calls ?w + i) since = None" by simp
  qed
  from Cons.IH [OF this] first show ?case by (simp add: Let_def sleep_def)
qed

lemma attempts_retry:
  "k < b - a \<Longrightarrow> \<forall>i < k. fetch_ohlcv ex (calls w + i) since = None
   \<Longrightarrow> fetch_ohlcv ex (calls w + k) since = Some page
   \<Longrightarrow> \<exists>w'. attempts ex since m [a ..< b] w = (Inr page, w')
          \<and> backoff_seconds (slept w') = backoff_seconds (slept w) + (\<Sum>i = a ..< a + k. 2 ^ i)"
proof (induction k arbitrary: a w)
  case 0
  then have "[a ..< b] = a # [Suc a ..< b]" by (simp add: upt_conv_Cons)
  with 0 show ?case
    by (simp add: Let_def sleep_def called_def backoff_seconds_append)
next
  case (Suc k)
  let ?w = "sleep (Backoff (2 ^ a)) (print_msg (Attempt_failed a m) (called (sleep Rate_limit_delay w)))"
  from Suc.prems have l: "[a ..< b] = a # [Suc a ..< b]" by (simp add: upt_conv_Cons)
  from Suc.prems have first: "fetch_ohlcv ex (calls w) since = None" by force
  have c: "calls ?w = Suc (calls w)" by (simp add: sleep_def called_def print_msg_def)
  have b: "backoff_seconds (slept ?w) = backoff_seconds (slept w) + 2 ^ a"
    by (simp add: sleep_def called_def print_msg_def backoff_seconds_append)
  have k: "k < b - Suc a" using Suc.prems by simp
  have fails: "\<forall>i < k. fetch_ohlcv ex (calls ?w + i) since = None"
  proof (intro allI impI)
    fix i assume "i < k"
    then have "Suc i < Suc k" by simp
    with Suc.prems(2) have "fetch_ohlcv ex (calls w + Suc i) since = None" by blast
    with c show "fetch_ohlcv ex (calls ?w + i) since = None" by simp
  qed
  have ok: "fetch_ohlcv ex (calls ?w + k) since = Some page"
    using Suc.prems(3) c by simp
  from Suc.IH [OF k fails ok] obtain w'
    where r: "attempts ex since m [Suc a ..< b] ?w = (Inr page, w')"
      and s: "backoff_seconds (slept w')
                = backoff_seconds (slept ?w) + (\<Sum>i = Suc a ..< Suc a + k. 2 ^ i)"
    by blast
  have "attempts ex since m [a ..< b] w = (Inr page, w')"
    using l first r by (simp add: Let_def sleep_def)
  moreover have "(\<Sum>i = a ..< a + Suc k. (2::nat) ^ i) = 2 ^ a + (\<Sum>i = Suc a ..< Suc a + k. 2 ^ i)"
    by (simp add: sum.atLeast_Suc_lessThan)
  ultimately show ?case using s b by auto
qed

text \<open>
  C3. When the provider fails exactly \<open>k\<close> times with \<open>k < max_retries\<close> and then answers,
  \<^verbatim>\<open>fetch_candles\<close> returns that page as it is, and the seconds it asked to sleep in
  backoff during the call add up to at least \<open>2^1 + ... + 2^k\<close> (the rate-limit delays are
  not counted).
\<close>

theorem fetch_candles_retries_then_succeeds:
  assumes "k < max_retries"
      and "\<forall>i < k. fetch_ohlcv ex (calls w + i) since = None"
      and "fetch_ohlcv ex (calls w + k) since = Some page"
  shows "fst (fetch_candles ex since max_retries w) = Inr page
         \<and> backoff_seconds (slept (snd (fetch_candles ex since max_retries w)))
             \<ge> backoff_seconds (slept w) + (\<Sum>i = 1 .. k. 2 ^ i)"
proof -
  from assms(1) have "k < (max_retries + 1) - 1" by simp
  from attempts_retry [OF this assms(2,3), of max_retries] obtain w'
    where r: "fetch_candles ex since max_retries w = (Inr page, w')"
      and s: "backoff_seconds (slept w') = backoff_seconds (slept w) + (\<Sum>i = 1 ..< 1 + k. 2 ^ i)"
    unfolding fetch_candles_def by blast
  have "{1 ..< 1 + k} = {1 .. k}" by auto
  then have "(\<Sum>i = 1 ..< 1 + k. (2::nat) ^ i) = (\<Sum>i = 1 .. k. 2 ^ i)" by (simp only:)
  with s have "backoff_seconds (slept w') = backoff_seconds (slept w) + (\<Sum>i = 1 .. k. 2 ^ i)"
    by (simp only:)
  with r show ?thesis by simp
qed

theorem fetch_candles_retries_then_succeeds_witness:
  "(3::nat) < 5
   \<and> map (\<lambda>i. fetch_ohlcv thrice_failing_exchange (calls no_files + i) epoch_floor) [0 ..< 3]
       = [None, None, None]
   \<and> fetch_ohlcv thrice_failing_exchange (calls no_files + 3) epoch_floor = Some demo_history
   \<and> fst (fetch_candles thrice_failing_exchange epoch_floor 5 no_files) = Inr demo_history
   \<and> backoff_seconds (slept (snd (fetch_candles thrice_failing_exchange epoch_floor 5 no_files)))
        \<ge> backoff_seconds (slept no_files) + (\<Sum>i = 1 .. 3. 2 ^ i)"
proof -
  have a: "(3::nat) < 5" by simp
  have b: "\<forall>i < 3. fetch_ohlcv thrice_failing_exchange (calls no_files + i) epoch_floor = None"
    by (simp add: thrice_failing_exchange_def no_files_def)
  have c: "fetch_ohlcv thrice_failing_exchange (calls no_files + 3) epoch_floor = Some demo_history"
    by (simp add: thrice_failing_exchange_def no_files_def)
  have d: "map (\<lambda>i. fetch_ohlcv thrice_failing_exchange (calls no_files + i) epoch_floor) [0 ..< 3]
             = [None, None, None]"
    by (simp add: thrice_failing_exchange_def no_files_def upt_rec)
  from fetch_candles_retries_then_succeeds [OF a b c] a c d show ?thesis by blast
qed

section \<open>The loop: reachable states and the file system\<close>

lemma fetch_candles_files:
  "fetch_candles ex since m w = (r, w') \<Longrightarrow> files w' = files w"
  using attempts_files [of ex since m "[1 ..< m + 1]" w] by (simp add: fetch_candles_def)

lemma fetch_candles_page:
  "fetch_candles ex since m w = (Inr page, w')
   \<Longrightarrow> \<exists>n \<ge> calls w. calls w' = Suc n \<and> fetch_ohlcv ex n since = Some page"
  unfolding fetch_candles_def by (rule attempts_page)

lemma trim_unclosed_files: "trim_unclosed ex candles w = (cs, w') \<Longrightarrow> files w' = files w"
  by (auto simp: trim_unclosed_def Let_def print_msg_def split: if_splits)

lemma trim_unclosed_calls: "trim_unclosed ex candles w = (cs, w') \<Longrightarrow> calls w' = calls w"
  by (auto simp: trim_unclosed_def Let_def print_msg_def split: if_splits)

lemma iteration_Next_files: "iteration ex s = Next s' \<Longrightarrow> files (world s') = files (world s)"
  by (auto simp: iteration_def Let_def print_msg_def
           dest!: fetch_candles_files trim_unclosed_files
           split: if_splits prod.splits sum.splits bool.splits)

lemma iteration_Stop_files: "iteration ex s = Stop r w \<Longrightarrow> files w = files (world s)"
  by (auto simp: iteration_def Let_def print_msg_def
           dest!: fetch_candles_files trim_unclosed_files
           split: if_splits prod.splits sum.splits bool.splits)

lemma reaches_files: "reaches ex s0 s \<Longrightarrow> files (world s) = files (world s0)"
  by (induction rule: reaches.induct) (auto dest: iteration_Next_files)

lemma reaches_pagination: "reaches ex s0 s \<Longrightarrow> pagination ex s0 = pagination ex s"
proof (induction rule: reaches.induct)
  case here
  show ?case by simp
next
  case (later s' s'')
  then show ?case by (simp add: pagination.simps [of ex s'])
qed

lemma reaches_front:
  assumes "iteration ex s0 = Next s1" and "reaches ex s1 s"
  shows "reaches ex s0 s"
  using assms(2)
proof (induction rule: reaches.induct)
  case here
  from reaches.here assms(1) show ?case by (rule reaches.later)
next
  case (later s' s'')
  from later.IH later.hyps(2) show ?case by (rule reaches.later)
qed

lemma pagination_reaches_aux:
  assumes "pagination ex0 s = Some y0"
  shows "\<exists>s'. reaches ex0 s s' \<and> iteration ex0 s' = Stop (fst y0) (snd y0)"
proof (rule pagination.raw_induct
         [where P = "\<lambda>ex s y. \<exists>s'. reaches ex s s' \<and> iteration ex s' = Stop (fst y) (snd y)",
          OF _ assms])
  fix pag :: "'a exchange \<Rightarrow> 'a loop_state \<Rightarrow> ((error + 'a candle list) \<times> 'a world) option"
    and ex s0 y
  assume IH: "\<And>ex s y. pag ex s = Some y
                \<Longrightarrow> \<exists>s'. reaches ex s s' \<and> iteration ex s' = Stop (fst y) (snd y)"
    and body: "(case iteration ex s0 of Next s' \<Rightarrow> pag ex s' | Stop r w \<Rightarrow> Some (r, w)) = Some y"
  show "\<exists>s'. reaches ex s0 s' \<and> iteration ex s' = Stop (fst y) (snd y)"
  proof (cases "iteration ex s0")
    case (Next s1)
    with body have "pag ex s1 = Some y" by simp
    from IH [OF this] obtain s
      where "reaches ex s1 s" and stop: "iteration ex s = Stop (fst y) (snd y)" by blast
    from Next this(1) have "reaches ex s0 s" by (rule reaches_front)
    with stop show ?thesis by blast
  next
    case (Stop r w)
    with body have "y = (r, w)" by simp
    with Stop have "iteration ex s0 = Stop (fst y) (snd y)" by simp
    with reaches.here show ?thesis by blast
  qed
qed

lemma pagination_reaches:
  "pagination ex s0 = Some (r, w) \<Longrightarrow> \<exists>s. reaches ex s0 s \<and> iteration ex s = Stop r w"
  using pagination_reaches_aux [of ex s0 "(r, w)"] by simp

lemma pagination_files:
  assumes "pagination ex s = Some (r, w)"
  shows "files w = files (world s)"
proof -
  from pagination_reaches [OF assms] obtain s'
    where "reaches ex s s'" and "iteration ex s' = Stop r w" by blast
  then show ?thesis using reaches_files iteration_Stop_files by metis
qed

lemma load_previous_files:
  "load_previous filename w = Inr (df_old, lt, w1) \<Longrightarrow> files w1 = files w"
  by (auto simp: load_previous_def print_msg_def split: option.splits if_splits)

text \<open>
  C2. Let \<open>s\<close> be the state at the head of some pass of the loop of a run, whose fetch is
  attempted, and let the provider fail the next five calls. Then the run ends with the
  \<^verbatim>\<open>ConnectionError\<close> of \<^verbatim>\<open>fetch_candles\<close> (the error the specification calls
  FetchExhaustedError) leaving \<^verbatim>\<open>main\<close>, and the file system is as it was before the run.
\<close>

theorem fetch_exhausted_aborts_run:
  assumes "timeframe \<in> set valid"
      and "load_previous (sanitize_filename symbol timeframe) (print_msg Banner w)
             = Inr (df_old, lt, w1)"
      and "reaches ex (first_state lt w1) s"
      and "utc_ok ex (since_of (last_timestamp s))"
      and "\<forall>i < 5. fetch_ohlcv ex (calls (world s) + i) (since_of (last_timestamp s)) = None"
  shows "\<exists>w'. main symbol timeframe ex w = Some (Raised (ConnectionError 5), w')
              \<and> files w' = files w"
proof -
  let ?since = "since_of (last_timestamp s)"
  let ?w = "print_msg (Fetching_from ?since) (world s)"
  have "\<forall>i < length [1 ..< 5 + 1]. fetch_ohlcv ex (calls ?w + i) ?since = None"
    using assms(5) by (simp add: print_msg_def)
  from attempts_exhausted [OF this, of 5] obtain w'
    where f: "fetch_candles ex ?since 5 ?w = (Inl (ConnectionError 5), w')"
    unfolding fetch_candles_def by blast
  with assms(4) have stop: "iteration ex s = Stop (Inl (ConnectionError 5)) w'"
    by (simp add: iteration_def Let_def)
  with reaches_pagination [OF assms(3)]
  have p: "pagination ex (first_state lt w1) = Some (Inl (ConnectionError 5), w')"
    by (simp add: pagination.simps [of ex s])
  have "files w' = files (world s)" using stop by (rule iteration_Stop_files)
  also have "\<dots> = files (world (first_state lt w1))" using assms(3) by (rule reaches_files)
  also have "\<dots> = files w"
    using load_previous_files [OF assms(2)] by (simp add: first_state_def print_msg_def)
  finally have "files w' = files w" .
  moreover have "main symbol timeframe ex w = Some (Raised (ConnectionError 5), w')"
    using assms(1,2) p by (simp add: main_def validate_timeframe_def Let_def)
  ultimately show ?thesis by blast
qed

theorem fetch_exhausted_aborts_run_witness:
  "''1m'' \<in> set valid
   \<and> load_previous (sanitize_filename ''BTC/USDT:USDT'' ''1m'') (print_msg Banner stored_world)
       = Inr (stored_rows, Some 300,
              print_msg (Csv_exists ''BTC-USDT-USDT_1m.csv'') (print_msg Banner stored_world))
   \<and> reaches failing_exchange
        (first_state (Some 300)
           (print_msg (Csv_exists ''BTC-USDT-USDT_1m.csv'') (print_msg Banner stored_world)))
        second_page_state
   \<and> utc_ok failing_exchange (since_of (last_timestamp second_page_state))
   \<and> map (\<lambda>i. fetch_ohlcv failing_exchange (calls (world second_page_state) + i)
                  (since_of (last_timestamp second_page_state))) [0 ..< 5]
       = [None, None, None, None, None]
   \<and> (\<exists>w'. main ''BTC/USDT:USDT'' ''1m'' failing_exchange stored_world
               = Some (Raised (ConnectionError 5), w')
            \<and> files w' = files stored_world)"
proof -
  let ?w1 = "print_msg (Csv_exists ''BTC-USDT-USDT_1m.csv'') (print_msg Banner stored_world)"
  have a: "''1m'' \<in> set valid" by (simp add: valid_def)
  have b: "load_previous (sanitize_filename ''BTC/USDT:USDT'' ''1m'')
             (print_msg Banner stored_world) = Inr (stored_rows, Some 300, ?w1)"
    by (simp add: run_defs demo_defs stored_rows_def fetched_rows_def failing_exchange_def
          stored_world_def second_page_state_def)
  have "iteration failing_exchange (first_state (Some 300) ?w1) = Next second_page_state"
    by (simp add: run_defs demo_defs stored_rows_def fetched_rows_def failing_exchange_def
          stored_world_def second_page_state_def)
  with reaches.here have c: "reaches failing_exchange (first_state (Some 300) ?w1) second_page_state"
    by (rule reaches.later)
  have d: "utc_ok failing_exchange (since_of (last_timestamp second_page_state))"
    by (simp add: failing_exchange_def)
  have e: "\<forall>i < 5. fetch_ohlcv failing_exchange (calls (world second_page_state) + i)
                  (since_of (last_timestamp second_page_state)) = None"
    by (simp add: failing_exchange_def second_page_state_def)
  have f: "map (\<lambda>i. fetch_ohlcv failing_exchange (calls (world second_page_state) + i)
                  (since_of (last_timestamp second_page_state))) [0 ..< 5]
             = [None, None, None, None, None]"
    by (simp add: failing_exchange_def second_page_state_def upt_rec)
  from fetch_exhausted_aborts_run [OF a b c d e] a b c d f show ?thesis by blast
qed

text \<open>
  C9. For a timeframe outside the allowed list, \<^verbatim>\<open>main\<close> prints the banner and one error
  line whose text names the rejected value and the allowed list, calls the provider not at
  all, leaves the file system as it is and returns (exit status 0).
\<close>

theorem invalid_timeframe_handled:
  assumes "timeframe \<notin> set valid"
  shows "\<exists>w'. main symbol timeframe ex w = Some (Returned, w')
           \<and> stdout w' = stdout w @ [Banner,
                Error_line (''Invalid timeframe '' @ quoted timeframe @ ''. Try: '' @ repr_list valid)]
           \<and> calls w' = calls w
           \<and> files w' = files w
           \<and> exit_status Returned = 0"
  using assms
  by (simp add: main_def validate_timeframe_def invalid_timeframe_text_def print_msg_def Let_def)

theorem invalid_timeframe_handled_witness:
  "''7m'' \<notin> set valid
   \<and> (\<exists>w'. main ''BTC/USDT:USDT'' ''7m'' demo_exchange stored_world = Some (Returned, w')
           \<and> stdout w' = stdout stored_world @ [Banner,
                Error_line (''Invalid timeframe '' @ quoted ''7m'' @ ''. Try: '' @ repr_list valid)]
           \<and> calls w' = calls stored_world
           \<and> files w' = files stored_world
           \<and> exit_status Returned = 0)"
proof -
  have a: "''7m'' \<notin> set valid" by (simp add: valid_def)
  from invalid_timeframe_handled [OF a] a show ?thesis by blast
qed

section \<open>The loop: what it accumulates\<close>

lemma set_butlast_last: "xs \<noteq> [] \<Longrightarrow> set xs = insert (last xs) (set (butlast xs))"
  by (induction xs) auto

lemma iteration_Next_shape:
  assumes "iteration ex s = Next s'"
  shows "\<exists>n page. calls (world s) \<le> n \<and> calls (world s') = Suc n
           \<and> fetch_ohlcv ex n (since_of (last_timestamp s)) = Some page \<and> page \<noteq> []
           \<and> all_candles s' = all_candles s
                @ (if milliseconds ex (Suc n) \<le> time (last page) then butlast page else page)"
proof -
  let ?since = "since_of (last_timestamp s)"
  obtain r w where f: "fetch_candles ex ?since 5 (print_msg (Fetching_from ?since) (world s)) = (r, w)"
    by (cases "fetch_candles ex ?since 5 (print_msg (Fetching_from ?since) (world s))")
  with assms obtain page where r: "r = Inr page" and ne: "page \<noteq> []"
    by (cases r) (auto simp: iteration_def Let_def split: if_splits)
  from fetch_candles_page [OF f [unfolded r]] obtain n
    where n: "calls (world s) \<le> n" "calls w = Suc n" "fetch_ohlcv ex n ?since = Some page"
    by (auto simp: print_msg_def)
  obtain cs w' where t: "trim_unclosed ex page w = (cs, w')"
    by (cases "trim_unclosed ex page w")
  then have cs: "cs = (if milliseconds ex (Suc n) \<le> time (last page) then butlast page else page)"
    and c: "calls w' = Suc n"
    using n(2) by (auto simp: trim_unclosed_def Let_def print_msg_def split: if_splits)
  from assms f r ne t have "all_candles s' = all_candles s @ cs \<and> calls (world s') = calls w'"
    by (auto simp: iteration_def Let_def print_msg_def split: if_splits sum.splits bool.splits)
  with n cs c ne show ?thesis by auto
qed

lemma iteration_Stop_candles: "iteration ex s = Stop (Inr cs) w \<Longrightarrow> cs = all_candles s"
  by (auto simp: iteration_def Let_def split: if_splits prod.splits sum.splits bool.splits)

lemma reaches_calls: "reaches ex s0 s \<Longrightarrow> calls (world s0) \<le> calls (world s)"
proof (induction rule: reaches.induct)
  case here
  show ?case by simp
next
  case (later s' s'')
  from iteration_Next_shape [OF later.hyps(2)] have "calls (world s') \<le> calls (world s'')" by auto
  with later.IH show ?case by simp
qed

lemma reaches_all_candles:
  assumes "reaches ex s0 s"
    and "\<forall>c \<in> set (all_candles s0). Q c"
    and "\<And>n since page. calls (world s0) \<le> n \<Longrightarrow> fetch_ohlcv ex n since = Some page
           \<Longrightarrow> \<forall>c \<in> set (if milliseconds ex (Suc n) \<le> time (last page) then butlast page else page). Q c"
  shows "\<forall>c \<in> set (all_candles s). Q c"
  using assms(1)
proof (induction rule: reaches.induct)
  case here
  show ?case by (rule assms(2))
next
  case (later s' s'')
  from iteration_Next_shape [OF later.hyps(2)] obtain n page
    where n: "calls (world s') \<le> n" "fetch_ohlcv ex n (since_of (last_timestamp s')) = Some page"
      and a: "all_candles s'' = all_candles s'
                @ (if milliseconds ex (Suc n) \<le> time (last page) then butlast page else page)"
    by blast
  from reaches_calls [OF later.hyps(1)] n(1) have "calls (world s0) \<le> n" by simp
  from assms(3) [OF this n(2)] later.IH a show ?case by auto
qed

lemma pagination_all_candles:
  assumes "pagination ex s0 = Some (Inr new, w)"
    and "\<forall>c \<in> set (all_candles s0). Q c"
    and "\<And>n since page. calls (world s0) \<le> n \<Longrightarrow> fetch_ohlcv ex n since = Some page
           \<Longrightarrow> \<forall>c \<in> set (if milliseconds ex (Suc n) \<le> time (last page) then butlast page else page). Q c"
  shows "\<forall>c \<in> set new. Q c"
proof -
  from pagination_reaches [OF assms(1)] obtain s
    where r: "reaches ex s0 s" and stop: "iteration ex s = Stop (Inr new) w" by blast
  from stop have "new = all_candles s" by (rule iteration_Stop_candles)
  with reaches_all_candles [OF r assms(2,3)] show ?thesis by simp
qed

text \<open>What a returning run has written, in terms of its parts.\<close>

lemma main_Returned_parts:
  assumes "main symbol timeframe ex w = Some (Returned, w')" and "timeframe \<in> set valid"
  shows "\<exists>df_old lt w1 new w2.
           load_previous (sanitize_filename symbol timeframe) (print_msg Banner w) = Inr (df_old, lt, w1)
         \<and> pagination ex (first_state lt w1) = Some (Inr new, w2)
         \<and> w' = persist (sanitize_filename symbol timeframe) df_old new w2"
  using assms
  by (fastforce simp: main_def validate_timeframe_def Let_def
           split: sum.splits option.splits prod.splits)

lemma load_previous_rows:
  "load_previous filename w = Inr (df_old, lt, w1)
   \<Longrightarrow> set df_old = (case files w filename of None \<Rightarrow> {} | Some rows \<Rightarrow> set rows)"
  by (auto simp: load_previous_def split: option.splits if_splits)

lemma persist_file: "files (persist filename df_old new w) filename = Some (merge_frames df_old new)"
  by (simp add: persist_def print_msg_def Let_def)

text \<open>
  C5 (amended). The loop examines, and discards, only the last candle of a page. Let a run
  return, and let the provider be such that in every page it returns all candles but the
  last have timestamps before the clock reading taken after that fetch. Then every row of
  the written file is a row of the file as it was before the run, or a candle of some
  fetched page whose timestamp was before the clock reading taken after the fetch of that
  page.
\<close>

theorem trailing_unclosed_candle_excluded:
  assumes "main symbol timeframe ex w = Some (Returned, w')"
      and "timeframe \<in> set valid"
      and "\<forall>n since page. fetch_ohlcv ex n since = Some page
             \<longrightarrow> (\<forall>c \<in> set (butlast page). time c < milliseconds ex (Suc n))"
  shows "\<exists>rows. files w' (sanitize_filename symbol timeframe) = Some rows
           \<and> (\<forall>r \<in> set rows.
                 (\<exists>old. files w (sanitize_filename symbol timeframe) = Some old \<and> r \<in> set old)
               \<or> (\<exists>n since page. fetch_ohlcv ex n since = Some page \<and> r \<in> set page
                      \<and> time r < milliseconds ex (Suc n)))"
proof -
  let ?f = "sanitize_filename symbol timeframe"
  let ?Q = "\<lambda>r. \<exists>n since page. fetch_ohlcv ex n since = Some page \<and> r \<in> set page
                      \<and> time r < milliseconds ex (Suc n)"
  from main_Returned_parts [OF assms(1,2)] obtain df_old lt w1 new w2
    where l: "load_previous ?f (print_msg Banner w) = Inr (df_old, lt, w1)"
      and p: "pagination ex (first_state lt w1) = Some (Inr new, w2)"
      and w': "w' = persist ?f df_old new w2"
    by blast
  have page: "\<forall>c \<in> set (if milliseconds ex (Suc n) \<le> time (last page) then butlast page else page). ?Q c"
    if f: "fetch_ohlcv ex n since = Some page" for n since page
  proof (cases "milliseconds ex (Suc n) \<le> time (last page)")
    case True
    from assms(3) f have b: "\<forall>c \<in> set (butlast page). time c < milliseconds ex (Suc n)"
      by blast
    have "?Q c" if c: "c \<in> set (butlast page)" for c
    proof -
      from c have "c \<in> set page" by (rule in_set_butlastD)
      moreover from b c have "time c < milliseconds ex (Suc n)" by simp
      ultimately show ?thesis using f by blast
    qed
    with True show ?thesis by simp
  next
    case False
    show ?thesis
    proof (cases "page = []")
      case True
      then show ?thesis by simp
    next
      case ne: False
      from assms(3) f have b: "\<forall>c \<in> set (butlast page). time c < milliseconds ex (Suc n)"
        by blast
      have "?Q c" if c: "c \<in> set page" for c
      proof -
        from ne have "set page = insert (last page) (set (butlast page))"
          by (rule set_butlast_last)
        with c have "c = last page \<or> c \<in> set (butlast page)" by simp
        with b False have "time c < milliseconds ex (Suc n)" by auto
        with c f show ?thesis by blast
      qed
      with False show ?thesis by simp
    qed
  qed
  have "\<forall>c \<in> set new. ?Q c"
    by (rule pagination_all_candles [OF p]) (simp_all add: first_state_def page)
  moreover have "set (merge_frames df_old new) \<subseteq> set df_old \<union> set new"
    by (rule merge_frames_subset)
  moreover have "set df_old = (case files w ?f of None \<Rightarrow> {} | Some rows \<Rightarrow> set rows)"
    using load_previous_rows [OF l] by (simp add: print_msg_def)
  moreover have "files w' ?f = Some (merge_frames df_old new)"
    unfolding w' by (rule persist_file)
  ultimately show ?thesis by (auto split: option.splits)
qed

theorem trailing_unclosed_candle_excluded_witness:
  "main ''BTC/USDT:USDT'' ''1m'' demo_exchange no_files = Some (Returned, demo_after)
   \<and> ''1m'' \<in> set valid
   \<and> (\<exists>rows. files demo_after (sanitize_filename ''BTC/USDT:USDT'' ''1m'') = Some rows
         \<and> (\<forall>r \<in> set rows.
               (\<exists>old. files no_files (sanitize_filename ''BTC/USDT:USDT'' ''1m'') = Some old
                      \<and> r \<in> set old)
             \<or> (\<exists>n since page. fetch_ohlcv demo_exchange n since = Some page \<and> r \<in> set page
                    \<and> time r < milliseconds demo_exchange (Suc n))))"
proof -
  have v: "''1m'' \<in> set valid" by (simp add: valid_def)
  have h: "\<forall>n since page. fetch_ohlcv demo_exchange n since = Some page
          \<longrightarrow> (\<forall>c \<in> set (butlast page). time c < milliseconds demo_exchange (Suc n))"
    by (auto simp: demo_defs demo_exchange_def split: if_splits)
  from trailing_unclosed_candle_excluded [OF demo_run v h] demo_run v show ?thesis by blast
qed

text \<open>
  C5 as stated fails: the first page of \<open>skewed_exchange\<close> is fetched when the clock reads
  1700000030000; only its last candle is discarded, and the candle of timestamp
  1700000060000 is written to the file.
\<close>

theorem unclosed_candle_persisted_counterexample:
  "main ''BTC/USDT:USDT'' ''1m'' skewed_exchange no_files = Some (Returned, skewed_after)
   \<and> files skewed_after ''BTC-USDT-USDT_1m.csv''
       = Some [bar 1700000000000 101, bar 1700000060000 102]
   \<and> fetch_ohlcv skewed_exchange 0 epoch_floor = Some demo_history
   \<and> bar 1700000060000 102 \<in> set demo_history
   \<and> milliseconds skewed_exchange 1 = 1700000030000
   \<and> time (bar 1700000060000 102) \<ge> milliseconds skewed_exchange 1"
  by (simp add: run_defs demo_defs skewed_exchange_def skewed_after_def)

text \<open>
  A second run that ends, when every candle it accepts has a stored timestamp: the rows
  in the file are the same.
\<close>

lemma second_run_writes_same_rows:
  assumes "main symbol timeframe ex w = Some (Returned, w1)"
      and "timeframe \<in> set valid"
      and "files w1 (sanitize_filename symbol timeframe) = Some rows"
      and "\<forall>n \<ge> calls w1. \<forall>since page. fetch_ohlcv ex n since = Some page
             \<longrightarrow> time ` set (if milliseconds ex (Suc n) \<le> time (last page)
                               then butlast page else page) \<subseteq> time ` set rows"
      and "main symbol timeframe ex w1 = Some (out, w2)"
  shows "files w2 = files w1
         \<and> files w2 (sanitize_filename symbol timeframe) = Some rows"
proof -
  let ?f = "sanitize_filename symbol timeframe"
  let ?w = "print_msg Banner w1"
  from main_Returned_file [OF assms(1,2)] assms(3)
  have sorted: "sorted_wrt (<) (map time rows)" by (auto simp: merge_frames_strict)
  have fw: "files ?w = files w1" by (simp add: print_msg_def)
  have "files w2 = files w1"
  proof (cases "load_previous ?f ?w")
    case (Inl e)
    with assms(2,5) have "w2 = ?w" by (auto simp: main_def validate_timeframe_def Let_def)
    with fw show ?thesis by simp
  next
    case (Inr x)
    then obtain df_old lt w1' where l: "load_previous ?f ?w = Inr (df_old, lt, w1')"
      by (cases x) auto
    with assms(3) fw have old: "df_old = rows"
      by (auto simp: load_previous_def split: option.splits if_splits)
    from load_previous_files [OF l] fw have f1: "files w1' = files w1" by simp
    have c1: "calls w1 \<le> calls w1'"
      using l by (auto simp: load_previous_def print_msg_def split: option.splits if_splits)
    from assms(2,5) l obtain r w2' where p: "pagination ex (first_state lt w1') = Some (r, w2')"
      by (auto simp: main_def validate_timeframe_def Let_def split: option.splits)
    from pagination_files [OF p] f1 have f2: "files w2' = files w1" by (simp add: first_state_def)
    show ?thesis
    proof (cases r)
      case (Inl e)
      with assms(2,5) l p have "w2 = w2'" by (auto simp: main_def validate_timeframe_def Let_def)
      with f2 show ?thesis by simp
    next
      case (Inr new)
      with assms(2,5) l p have w2: "w2 = persist ?f df_old new w2'"
        by (auto simp: main_def validate_timeframe_def Let_def)
      have "\<forall>c \<in> set new. time c \<in> time ` set rows"
      proof (rule pagination_all_candles [OF p [unfolded Inr]])
        show "\<forall>c \<in> set (all_candles (first_state lt w1')). time c \<in> time ` set rows"
          by (simp add: first_state_def)
      next
        fix n since page
        assume n: "calls (world (first_state lt w1')) \<le> n"
          and f: "fetch_ohlcv ex n since = Some page"
        from c1 n have "calls w1 \<le> n" by (simp add: first_state_def)
        with assms(4) f
        have "time ` set (if milliseconds ex (Suc n) \<le> time (last page)
                          then butlast page else page) \<subseteq> time ` set rows"
          by blast
        then show "\<forall>c \<in> set (if milliseconds ex (Suc n) \<le> time (last page)
                                then butlast page else page). time c \<in> time ` set rows"
          by blast
      qed
      then have "time ` set new \<subseteq> time ` set rows" by auto
      with sorted have "merge_frames rows new = rows" by (rule merge_frames_old_only)
      with w2 old have "files w2 = (files w2')(?f \<mapsto> rows)"
        by (simp add: persist_def print_msg_def Let_def)
      with f2 assms(3) show ?thesis by (simp add: map_upd_triv)
    qed
  qed
  with assms(3) show ?thesis by simp
qed

text \<open>
  What one pass that goes on leaves in \<^verbatim>\<open>previous_last\<close>: the timestamp of the last
  accepted candle, which is after the old \<^verbatim>\<open>previous_last\<close> unless that was 0.
\<close>

lemma iteration_Next_previous:
  assumes "iteration ex s = Next s'"
  shows "\<exists>n page accepted. calls (world s) \<le> n \<and> calls (world s') = Suc n
           \<and> fetch_ohlcv ex n (since_of (last_timestamp s)) = Some page
           \<and> accepted = (if milliseconds ex (Suc n) \<le> time (last page)
                          then butlast page else page)
           \<and> accepted \<noteq> []
           \<and> previous_last s' = Some (time (last accepted))
           \<and> (\<forall>p. previous_last s = Some p \<longrightarrow> p \<noteq> 0 \<longrightarrow> p < time (last accepted))"
proof -
  let ?since = "since_of (last_timestamp s)"
  obtain r w where f: "fetch_candles ex ?since 5 (print_msg (Fetching_from ?since) (world s)) = (r, w)"
    by (cases "fetch_candles ex ?since 5 (print_msg (Fetching_from ?since) (world s))")
  with assms obtain page where r: "r = Inr page" and ne: "page \<noteq> []"
    by (cases r) (auto simp: iteration_def Let_def split: if_splits)
  from fetch_candles_page [OF f [unfolded r]] obtain n
    where n: "calls (world s) \<le> n" "calls w = Suc n" "fetch_ohlcv ex n ?since = Some page"
    by (auto simp: print_msg_def)
  obtain cs w' where t: "trim_unclosed ex page w = (cs, w')"
    by (cases "trim_unclosed ex page w")
  then have cs: "cs = (if milliseconds ex (Suc n) \<le> time (last page) then butlast page else page)"
    and c: "calls w' = Suc n"
    using n(2) by (auto simp: trim_unclosed_def Let_def print_msg_def split: if_splits)
  from assms f r ne t
  have k: "cs \<noteq> [] \<and> previous_last s' = Some (time (last cs)) \<and> calls (world s') = calls w'
        \<and> stalled (previous_last s) cs = Inr False"
    by (auto simp: iteration_def Let_def print_msg_def split: if_splits sum.splits bool.splits)
  then have adv: "\<forall>p. previous_last s = Some p \<longrightarrow> p \<noteq> 0 \<longrightarrow> p < time (last cs)"
    by (auto simp: stalled_def truthy_def split: if_splits)
  from k have k1: "cs \<noteq> []" and k2: "previous_last s' = Some (time (last cs))"
    and k3: "calls (world s') = calls w'" by blast+
  from k3 c have k4: "calls (world s') = Suc n" by (rule trans)
  have "calls (world s) \<le> n \<and> calls (world s') = Suc n
           \<and> fetch_ohlcv ex n ?since = Some page
           \<and> cs = (if milliseconds ex (Suc n) \<le> time (last page)
                          then butlast page else page)
           \<and> cs \<noteq> []
           \<and> previous_last s' = Some (time (last cs))
           \<and> (\<forall>p. previous_last s = Some p \<longrightarrow> p \<noteq> 0 \<longrightarrow> p < time (last cs))"
    by (intro conjI) (rule n(1) k4 n(3) cs k1 k2 adv)+
  then show ?thesis by (intro exI [of _ n] exI [of _ page] exI [of _ cs])
qed

lemma pagination_ends:
  assumes stable: "\<And>n since page. n0 \<le> n \<Longrightarrow> fetch_ohlcv ex n since = Some page
             \<Longrightarrow> time ` set (if milliseconds ex (Suc n) \<le> time (last page)
                               then butlast page else page) \<subseteq> T"
      and fin: "finite T" and zero: "0 \<notin> T"
  shows "n0 \<le> calls (world s) \<Longrightarrow> previous_last s = None \<or> (\<exists>p. previous_last s = Some p \<and> p \<noteq> 0)
         \<Longrightarrow> \<exists>y. pagination ex s = Some y"
proof (induction "case previous_last s of None \<Rightarrow> Suc (card T) | Some p \<Rightarrow> card {t \<in> T. p < t}"
         arbitrary: s rule: less_induct)
  case less
  show ?case
  proof (cases "iteration ex s")
    case (Stop r w)
    then show ?thesis by (simp add: pagination.simps [of ex s])
  next
    case (Next s')
    from iteration_Next_previous [OF Next] obtain n page accepted
      where n: "calls (world s) \<le> n" "calls (world s') = Suc n"
        and f: "fetch_ohlcv ex n (since_of (last_timestamp s)) = Some page"
        and a: "accepted = (if milliseconds ex (Suc n) \<le> time (last page)
                            then butlast page else page)"
        and ne: "accepted \<noteq> []"
        and pl: "previous_last s' = Some (time (last accepted))"
        and adv: "\<forall>p. previous_last s = Some p \<longrightarrow> p \<noteq> 0 \<longrightarrow> p < time (last accepted)"
      by blast
    let ?t = "time (last accepted)"
    from less.prems(1) n(1) have n0: "n0 \<le> n" by simp
    from stable [OF n0 f] a have "time ` set accepted \<subseteq> T" by simp
    with ne have tT: "?t \<in> T" by auto
    with zero have t0: "?t \<noteq> 0" by auto
    have smaller: "card {x \<in> T. ?t < x}
            < (case previous_last s of None \<Rightarrow> Suc (card T) | Some p \<Rightarrow> card {t \<in> T. p < t})"
    proof (cases "previous_last s")
      case None
      have "card {x \<in> T. ?t < x} \<le> card T" using fin by (intro card_mono) auto
      with None show ?thesis by simp
    next
      case (Some p)
      with less.prems(2) have "p \<noteq> 0" by simp
      with adv Some have lt: "p < ?t" by simp
      have "{x \<in> T. ?t < x} \<subset> {x \<in> T. p < x}"
      proof
        show "{x \<in> T. ?t < x} \<subseteq> {x \<in> T. p < x}" using lt by auto
        have "?t \<in> {x \<in> T. p < x}" using tT lt by simp
        moreover have "?t \<notin> {x \<in> T. ?t < x}" by simp
        ultimately show "{x \<in> T. ?t < x} \<noteq> {x \<in> T. p < x}" by blast
      qed
      moreover have "finite {x \<in> T. p < x}" using fin by simp
      ultimately have "card {x \<in> T. ?t < x} < card {x \<in> T. p < x}" by (rule psubset_card_mono [rotated])
      with Some show ?thesis by simp
    qed
    have "\<exists>y. pagination ex s' = Some y"
    proof (rule less.hyps)
      show "(case previous_last s' of None \<Rightarrow> Suc (card T) | Some p \<Rightarrow> card {t \<in> T. p < t})
            < (case previous_last s of None \<Rightarrow> Suc (card T) | Some p \<Rightarrow> card {t \<in> T. p < t})"
        using smaller pl by simp
      show "n0 \<le> calls (world s')" using n0 n(2) by simp
      show "previous_last s' = None \<or> (\<exists>p. previous_last s' = Some p \<and> p \<noteq> 0)"
        using pl t0 by simp
    qed
    with Next show ?thesis by (simp add: pagination.simps [of ex s])
  qed
qed

lemma second_run_ends:
  assumes "timeframe \<in> set valid"
      and "files w1 (sanitize_filename symbol timeframe) = Some rows"
      and "\<forall>n \<ge> calls w1. \<forall>since page. fetch_ohlcv ex n since = Some page
             \<longrightarrow> time ` set (if milliseconds ex (Suc n) \<le> time (last page)
                               then butlast page else page) \<subseteq> time ` set rows"
      and "0 \<notin> time ` set rows"
  shows "\<exists>out w2. main symbol timeframe ex w1 = Some (out, w2)"
proof (cases "rows = []")
  case True
  with assms(1,2) show ?thesis
    by (simp add: main_def validate_timeframe_def load_previous_def print_msg_def Let_def)
next
  case False
  let ?f = "sanitize_filename symbol timeframe"
  let ?w = "print_msg (Csv_exists ?f) (print_msg Banner w1)"
  from False assms(2)
  have l: "load_previous ?f (print_msg Banner w1) = Inr (rows, Some (time (last rows)), ?w)"
    by (simp add: load_previous_def print_msg_def)
  have "\<exists>y. pagination ex (first_state (Some (time (last rows))) ?w) = Some y"
  proof (rule pagination_ends [where ?n0.0 = "calls w1" and T = "time ` set rows"])
    fix n since page
    assume "calls w1 \<le> n" and "fetch_ohlcv ex n since = Some page"
    with assms(3)
    show "time ` set (if milliseconds ex (Suc n) \<le> time (last page) then butlast page else page)
            \<subseteq> time ` set rows"
      by blast
  next
    show "finite (time ` set rows)" by simp
    show "0 \<notin> time ` set rows" by (rule assms(4))
    show "calls w1 \<le> calls (world (first_state (Some (time (last rows))) ?w))"
      by (simp add: first_state_def print_msg_def)
    show "previous_last (first_state (Some (time (last rows))) ?w) = None
          \<or> (\<exists>p. previous_last (first_state (Some (time (last rows))) ?w) = Some p \<and> p \<noteq> 0)"
      by (simp add: first_state_def)
  qed
  then obtain r w where "pagination ex (first_state (Some (time (last rows))) ?w) = Some (r, w)"
    by auto
  with assms(1) l show ?thesis
    by (cases r) (simp_all add: main_def validate_timeframe_def Let_def)
qed

text \<open>
  C7 (amended). Let a first run return and leave \<open>rows\<close> in the output file, and from then
  on let every candle that the loop accepts have a timestamp stored in \<open>rows\<close>: the loop
  accepts a page without its last candle when the timestamp of that one is not before the
  clock reading taken after the fetch, and whole otherwise. Then a second run that ends,
  by returning or by raising, leaves the file system as the first run left it: the file
  holds the same rows (the text written for the float fields is not part of the model).
  And the second run does end when no stored row has timestamp 0.
\<close>

theorem second_run_leaves_rows_unchanged:
  assumes "main symbol timeframe ex w = Some (Returned, w1)"
      and "timeframe \<in> set valid"
      and "files w1 (sanitize_filename symbol timeframe) = Some rows"
      and "\<forall>n \<ge> calls w1. \<forall>since page. fetch_ohlcv ex n since = Some page
             \<longrightarrow> time ` set (if milliseconds ex (Suc n) \<le> time (last page)
                               then butlast page else page) \<subseteq> time ` set rows"
  shows "(\<forall>out w2. main symbol timeframe ex w1 = Some (out, w2)
            \<longrightarrow> files w2 = files w1
                \<and> files w2 (sanitize_filename symbol timeframe) = Some rows)
         \<and> (0 \<notin> time ` set rows
              \<longrightarrow> (\<exists>out w2. main symbol timeframe ex w1 = Some (out, w2)))"
  using second_run_writes_same_rows [OF assms] second_run_ends [OF assms(2,3,4)]
  by blast

theorem second_run_leaves_rows_unchanged_witness:
  "main ''BTC/USDT:USDT'' ''1m'' demo_exchange no_files = Some (Returned, demo_after)
   \<and> ''1m'' \<in> set valid
   \<and> files demo_after (sanitize_filename ''BTC/USDT:USDT'' ''1m'') = Some demo_history
   \<and> 0 \<notin> time ` set demo_history
   \<and> main ''BTC/USDT:USDT'' ''1m'' demo_exchange demo_after = Some (Returned, demo_after_second)
   \<and> files demo_after_second = files demo_after
   \<and> files demo_after_second (sanitize_filename ''BTC/USDT:USDT'' ''1m'') = Some demo_history
   \<and> (\<exists>out w2. main ''BTC/USDT:USDT'' ''1m'' demo_exchange demo_after = Some (out, w2))"
proof -
  have v: "''1m'' \<in> set valid" by (simp add: valid_def)
  have f: "files demo_after (sanitize_filename ''BTC/USDT:USDT'' ''1m'') = Some demo_history"
    by (simp add: demo_after_def sanitize_filename_def replace_char_def)
  have z: "0 \<notin> time ` set demo_history" by (simp add: demo_defs)
  have h: "\<forall>n \<ge> calls demo_after. \<forall>since page. fetch_ohlcv demo_exchange n since = Some page
          \<longrightarrow> time ` set (if milliseconds demo_exchange (Suc n) \<le> time (last page)
                            then butlast page else page) \<subseteq> time ` set demo_history"
  proof (intro allI impI)
    fix n since page
    assume "fetch_ohlcv demo_exchange n since = Some page"
    then have "set page \<subseteq> set demo_history"
      by (auto simp: demo_exchange_def split: if_splits)
    moreover have "set (butlast page) \<subseteq> set page" by (auto dest: in_set_butlastD)
    ultimately show "time ` set (if milliseconds demo_exchange (Suc n) \<le> time (last page)
                            then butlast page else page) \<subseteq> time ` set demo_history"
      by auto
  qed
  from second_run_leaves_rows_unchanged [OF demo_run v f h] demo_run v f z demo_second_run
  show ?thesis by blast
qed

text \<open>
  C7 as stated fails. After the first run the file holds the candle 1700000000000. Then
  the provider returns two more candles, 1700000060000 and 1700000120000, both not before
  the clock reading 1700000030000, so no new closed candle. The second run discards only
  the last one and writes the candle 1700000060000 to the file.
\<close>

theorem new_unclosed_candle_written_counterexample:
  "main ''BTC/USDT:USDT'' ''1m'' late_candles_exchange no_files
     = Some (Returned, late_candles_first)
   \<and> files late_candles_first ''BTC-USDT-USDT_1m.csv'' = Some [bar 1700000000000 101]
   \<and> fetch_ohlcv late_candles_exchange 2 1700000000000 = Some demo_history
   \<and> demo_history = [bar 1700000000000 101, bar 1700000060000 102, bar 1700000120000 103]
   \<and> fetch_ohlcv late_candles_exchange 3 1700000060001 = Some []
   \<and> milliseconds late_candles_exchange 3 = 1700000030000
   \<and> time (bar 1700000060000 102) \<ge> milliseconds late_candles_exchange 3
   \<and> time (bar 1700000120000 103) \<ge> milliseconds late_candles_exchange 3
   \<and> main ''BTC/USDT:USDT'' ''1m'' late_candles_exchange late_candles_first
       = Some (Returned, late_candles_second)
   \<and> files late_candles_second ''BTC-USDT-USDT_1m.csv''
       = Some [bar 1700000000000 101, bar 1700000060000 102]
   \<and> files late_candles_second ''BTC-USDT-USDT_1m.csv''
       \<noteq> files late_candles_first ''BTC-USDT-USDT_1m.csv''"
  by (simp add: run_defs demo_defs late_candles_exchange_def late_candles_first_def
        late_candles_second_def)

section \<open>Where the loop departs from the specification\<close>

text \<open>
  A page that holds one candle, not before the clock reading: after \<^verbatim>\<open>candles.pop()\<close> the
  list is empty and \<^verbatim>\<open>candles[-1]\<close> raises, on line 91 or on line 96.
\<close>

lemma iteration_empty_after_trim:
  assumes "utc_ok ex (since_of (last_timestamp s))"
      and "fetch_ohlcv ex (calls (world s)) (since_of (last_timestamp s)) = Some [c]"
      and "milliseconds ex (Suc (calls (world s))) \<le> time c"
  shows "\<exists>w. iteration ex s = Stop (Inl IndexError) w"
  using assms
  by (simp add: iteration_def fetch_candles_def upt_rec Let_def sleep_def called_def
        print_msg_def trim_unclosed_def stalled_def split: option.splits)

text \<open>
  C4 (code at the failing input). The provider returns three candles, the last one in
  progress at the clock reading. The first pass discards it and accepts two candles; the
  second page holds the candle in progress alone, trimming empties it, and the run ends
  with \<^verbatim>\<open>IndexError\<close> leaving \<^verbatim>\<open>main\<close>: the loop does not go on, and no file is written.
\<close>

theorem empty_trimmed_page_raises_index_error:
  "main ''BTC/USDT:USDT'' ''1m'' still_clock_exchange no_files
     = Some (Raised IndexError, still_clock_after)"
  by (simp add: run_defs demo_defs still_clock_exchange_def still_clock_after_def)

text \<open>
  The stall guard of line 91 does end the loop when \<^verbatim>\<open>previous_last\<close> is not 0: a page
  whose last accepted candle is not after \<^verbatim>\<open>previous_last\<close> is a \<^verbatim>\<open>break\<close>.
\<close>

lemma stall_guard_nonzero:
  assumes "utc_ok ex (since_of (last_timestamp s))"
      and "fetch_candles ex (since_of (last_timestamp s)) 5
             (print_msg (Fetching_from (since_of (last_timestamp s))) (world s)) = (Inr page, w)"
      and "page \<noteq> []"
      and "trim_unclosed ex page w = (accepted, w')"
      and "accepted \<noteq> []"
      and "previous_last s = Some p" and "p \<noteq> 0"
      and "time (last accepted) \<le> p"
  shows "iteration ex s = Stop (Inr (all_candles s)) (print_msg Reached_end w')"
  using assms by (simp add: iteration_def Let_def stalled_def truthy_def)

text \<open>
  With \<^verbatim>\<open>previous_last\<close> equal to \<^verbatim>\<open>None\<close> or to 0 the left operand of \<^verbatim>\<open>and\<close> on line 91 is
  false, so the stall guard is skipped.
\<close>

lemma stuck_iteration:
  assumes "previous_last s = None \<or> previous_last s = Some 0"
  shows "\<exists>s'. iteration stuck_exchange s = Next s' \<and> previous_last s' = Some 0"
  using assms
  by (auto simp: iteration_def fetch_candles_def upt_rec Let_def sleep_def called_def
        print_msg_def trim_unclosed_def stalled_def truthy_def stuck_exchange_def bar_def)

lemma stuck_reaches:
  assumes "reaches stuck_exchange s0 s" and "previous_last s0 = None \<or> previous_last s0 = Some 0"
  shows "previous_last s = None \<or> previous_last s = Some 0"
  using assms
proof (induction rule: reaches.induct)
  case here
  then show ?case by simp
next
  case (later s' s'')
  then have "previous_last s' = None \<or> previous_last s' = Some 0" by simp
  from stuck_iteration [OF this] later.hyps(2) show ?case by auto
qed

lemma stuck_pagination:
  assumes "previous_last s0 = None \<or> previous_last s0 = Some 0"
  shows "pagination stuck_exchange s0 = None"
proof (cases "pagination stuck_exchange s0")
  case None
  then show ?thesis .
next
  case (Some y)
  obtain r w where "y = (r, w)" by (cases y)
  with Some have "pagination stuck_exchange s0 = Some (r, w)" by simp
  from pagination_reaches [OF this] obtain s
    where r: "reaches stuck_exchange s0 s" and stop: "iteration stuck_exchange s = Stop r w"
    by blast
  from stuck_iteration [OF stuck_reaches [OF r assms]] stop show ?thesis by auto
qed

text \<open>
  C6 (code at the failing input). The provider returns the same candle of timestamp 0 at
  every call. At the head of the second pass \<^verbatim>\<open>previous_last\<close> is 0 and the page fetched
  ends at timestamp 0, which is not after it; the loop goes on all the same, and the run
  never ends.
\<close>

theorem stall_guard_skipped_at_zero:
  "previous_last stuck_second_state = Some 0
   \<and> fetch_ohlcv stuck_exchange (calls (world stuck_second_state)) 1 = Some [bar 0 7]
   \<and> iteration stuck_exchange stuck_second_state = Next stuck_third_state
   \<and> main ''BTC/USDT:USDT'' ''1m'' stuck_exchange no_files = None"
proof -
  have "pagination stuck_exchange
          (first_state None (print_msg (New_csv ''BTC-USDT-USDT_1m.csv'') (print_msg Banner no_files)))
        = None"
    by (rule stuck_pagination) (simp add: first_state_def)
  then have "main ''BTC/USDT:USDT'' ''1m'' stuck_exchange no_files = None"
    by (simp add: main_def validate_timeframe_def valid_def sanitize_filename_def
          replace_char_def load_previous_def no_files_def print_msg_def Let_def)
  moreover have "iteration stuck_exchange stuck_second_state = Next stuck_third_state"
    by (simp add: run_defs demo_defs stuck_exchange_def stuck_second_state_def
          stuck_third_state_def)
  ultimately show ?thesis by (simp add: stuck_exchange_def stuck_second_state_def)
qed

text \<open>
  The first \<^verbatim>\<open>since\<close> of a run: the epoch floor without a file; with a file, the timestamp
  of its last row unless that is 0, and then the epoch floor.
\<close>

lemma first_since:
  assumes "load_previous filename w = Inr (df_old, lt, w1)"
  shows "since_of (last_timestamp (first_state lt w1))
           = (case files w filename of
                None \<Rightarrow> epoch_floor
              | Some rows \<Rightarrow> if time (last rows) = 0 then epoch_floor else time (last rows))"
  using assms
  by (auto simp: load_previous_def first_state_def since_of_def truthy_def
           split: option.splits if_splits)

text \<open>
  C8 (code at the failing input). The stored file ends with a row of timestamp 0. The run
  asks the provider from the epoch floor 1262304000000, not from 0.
\<close>

theorem resume_from_zero_timestamp_uses_floor:
  "files epoch_world (sanitize_filename ''BTC/USDT:USDT'' ''1m'') = Some [bar 0 7]
   \<and> time (last [bar 0 7]) = 0
   \<and> main ''BTC/USDT:USDT'' ''1m'' quiet_exchange epoch_world = Some (Returned, epoch_after)
   \<and> stdout epoch_after ! 2 = Fetching_from 1262304000000"
  by (simp add: run_defs demo_defs quiet_exchange_def epoch_world_def epoch_after_def)

end
